theory Spec2Isabelle
  imports Complex_Main
begin

section \<open>USD to ZAR exchange rates: the gap-filling and aggregation pipeline\<close>

text \<open>
  A shallow embedding of \<^verbatim>\<open>Final_ExchangeRates.py\<close>. The script fetches the ECB
  reference-rate feed, derives the USD to ZAR cross rate per date, builds a complete
  daily axis, fills the missing days, averages per month and merges both tables.

  Python floats are modelled as real numbers (rounding is left out, and the rates of the
  feed are taken to be finite numbers) and a missing value (pandas \<^verbatim>\<open>NaN\<close>) as
  \<open>None\<close>, so a column of floats is a list of \<open>real option\<close>. The pandas operations the
  script calls are modelled with the defaults the script leaves in place.
\<close>

subsection \<open>Exceptions\<close>

text \<open>
  The exceptions the script can end with, as values. A computation that may raise
  returns \<open>error + 'a\<close>, and \<open>bind_result\<close> passes the first exception on.
\<close>

datatype error = ZeroDivisionError | KeyError string | NameError string | ValueError

definition bind_result :: "error + 'a \<Rightarrow> ('a \<Rightarrow> error + 'b) \<Rightarrow> error + 'b" where
  "bind_result r f = (case r of Inl e \<Rightarrow> Inl e | Inr x \<Rightarrow> f x)"

subsection \<open>Dates and monthly periods\<close>

text \<open>
  A date is a \<^verbatim>\<open>Timestamp\<close> at midnight, held as its number of days since 1970-01-01; a
  monthly \<^verbatim>\<open>Period\<close> is held as its number of months since 1970-01, which is how pandas
  stores both. \<open>civil_from_days\<close> gives the year, month and day of the proleptic
  Gregorian calendar; \<open>period_str\<close> is the text \<^verbatim>\<open>YYYY-MM\<close> that \<^verbatim>\<open>astype(str)\<close> gives a
  monthly period.
\<close>

type_synonym date = int
type_synonym period = int

definition civil_from_days :: "date \<Rightarrow> int \<times> int \<times> int" where
  "civil_from_days z =
     (let z' = z + 719468;
          era = z' div 146097;
          doe = z' mod 146097;
          yoe = (doe - doe div 1460 + doe div 36524 - doe div 146096) div 365;
          doy = doe - (365 * yoe + yoe div 4 - yoe div 100);
          mp = (5 * doy + 2) div 153;
          d = doy - (153 * mp + 2) div 5 + 1;
          m = (if mp < 10 then mp + 3 else mp - 9);
          y = yoe + era * 400 + (if m \<le> 2 then 1 else 0)
      in (y, m, d))"

definition to_period_M :: "date \<Rightarrow> period" where
  "to_period_M d = (case civil_from_days d of (y, m, _) \<Rightarrow> (y - 1970) * 12 + (m - 1))"

definition digit :: "nat \<Rightarrow> char" where
  "digit n = char_of (48 + n)"

fun decimal :: "nat \<Rightarrow> string" where
  "decimal n = (if n < 10 then [digit n] else decimal (n div 10) @ [digit (n mod 10)])"

declare decimal.simps [simp del]

definition zfill :: "nat \<Rightarrow> string \<Rightarrow> string" where
  "zfill w s = replicate (w - length s) (CHR ''0'') @ s"

definition year_str :: "int \<Rightarrow> string" where
  "year_str y =
     (if y < 0 then ''-'' @ zfill 4 (decimal (nat (- y))) else zfill 4 (decimal (nat y)))"

definition period_str :: "period \<Rightarrow> string" where
  "period_str p =
     (let y = 1970 + p div 12; m = p mod 12 + 1
      in year_str y @ ''-'' @ zfill 2 (decimal (nat m)))"

subsection \<open>Extraction of the cross rate (lines 21 to 31)\<close>

text \<open>
  The parsed document is a list of dated tables, in document order: the date of the
  \<^verbatim>\<open>time\<close> attribute (so \<^verbatim>\<open>pd.to_datetime\<close> of line 35 is the identity of the model) and
  the currency entries with their rates after \<^verbatim>\<open>float\<close>. The dictionary comprehension of
  line 24 lets a later entry of a currency replace an earlier one. Python's float
  division raises \<^verbatim>\<open>ZeroDivisionError\<close> on a zero divisor. The loop appends to \<open>data\<close>.
\<close>

type_synonym cube = "date \<times> (string \<times> real) list"

definition rates_of :: "(string \<times> real) list \<Rightarrow> (string \<rightharpoonup> real)" where
  "rates_of entries = foldl (\<lambda>rates (currency, rate). rates(currency \<mapsto> rate)) Map.empty entries"

definition truediv :: "real \<Rightarrow> real \<Rightarrow> error + real" where
  "truediv a b = (if b = 0 then Inl ZeroDivisionError else Inr (a / b))"

fun extract_rates :: "cube list \<Rightarrow> (date \<times> real) list \<Rightarrow> error + (date \<times> real) list" where
  "extract_rates [] data = Inr data"
| "extract_rates ((date, entries) # cubes) data =
     (let rates = rates_of entries
      in if rates ''USD'' \<noteq> None \<and> rates ''ZAR'' \<noteq> None
         then (let usd_to_eur = the (rates ''USD'');
                   zar_to_eur = the (rates ''ZAR'')
               in case truediv zar_to_eur usd_to_eur of
                    Inl e \<Rightarrow> Inl e
                  | Inr usd_to_zar \<Rightarrow> extract_rates cubes (data @ [(date, usd_to_zar)]))
         else extract_rates cubes data)"

subsection \<open>Series of possibly missing numbers (lines 50 and 55)\<close>

type_synonym series = "real option list"

text \<open>
  \<^verbatim>\<open>Series.rolling(w, min_periods)\<close>: the window ending at position \<open>i\<close> holds the
  positions \<open>i - w + 1 .. i\<close> that exist. The mean of a window is taken over its
  observed values and is produced only when at least \<open>min_periods\<close> of them are present.
  \<^verbatim>\<open>rolling(3)\<close> leaves \<open>min_periods\<close> unset, which for a fixed window means the window
  size itself.
\<close>

definition window :: "nat \<Rightarrow> 'a list \<Rightarrow> nat \<Rightarrow> 'a list" where
  "window w xs i = drop (Suc i - w) (take (Suc i) xs)"

definition observed :: "series \<Rightarrow> real list" where
  "observed xs = map the (filter (\<lambda>x. x \<noteq> None) xs)"

definition mean :: "real list \<Rightarrow> real" where
  "mean vs = sum_list vs / real (length vs)"

definition rolling_mean :: "nat \<Rightarrow> nat \<Rightarrow> series \<Rightarrow> series" where
  "rolling_mean w min_periods xs =
     map (\<lambda>i. let obs = observed (window w xs i)
              in if min_periods \<le> length obs \<and> obs \<noteq> [] then Some (mean obs) else None)
         [0..<length xs]"

text \<open>\<^verbatim>\<open>Series.fillna(other)\<close>: a missing value takes the value of \<open>other\<close> at the same index.\<close>

definition fillna :: "series \<Rightarrow> series \<Rightarrow> series" where
  "fillna xs other = map (\<lambda>(x, c). case x of None \<Rightarrow> c | Some v \<Rightarrow> Some v) (zip xs other)"

text \<open>
  \<^verbatim>\<open>Series.interpolate()\<close> with its defaults (linear, forward direction, no limit):
  positions are taken as equally spaced; a missing value between two observed ones lies
  on the straight line through its nearest observed neighbours; a missing value after
  the last observed one takes that last value; a missing value before the first
  observed one stays missing.
\<close>

definition prev_valid :: "series \<Rightarrow> nat \<Rightarrow> nat option" where
  "prev_valid xs i = find (\<lambda>j. xs ! j \<noteq> None) (rev [0..<i])"

definition next_valid :: "series \<Rightarrow> nat \<Rightarrow> nat option" where
  "next_valid xs i = find (\<lambda>j. xs ! j \<noteq> None) [Suc i..<length xs]"

definition interp :: "nat \<Rightarrow> real \<Rightarrow> nat \<Rightarrow> real \<Rightarrow> nat \<Rightarrow> real" where
  "interp p a q b i = (b - a) / (real q - real p) * (real i - real p) + a"

definition interpolate_at :: "series \<Rightarrow> nat \<Rightarrow> real option" where
  "interpolate_at xs i =
     (case xs ! i of
        Some v \<Rightarrow> Some v
      | None \<Rightarrow>
          (case prev_valid xs i of
             None \<Rightarrow> None
           | Some p \<Rightarrow>
               (case next_valid xs i of
                  None \<Rightarrow> xs ! p
                | Some q \<Rightarrow> Some (interp p (the (xs ! p)) q (the (xs ! q)) i))))"

definition interpolate :: "series \<Rightarrow> series" where
  "interpolate xs = map (interpolate_at xs) [0..<length xs]"

text \<open>
  Line 50, \<^verbatim>\<open>df_full['USDtoZAR'].fillna(df_full['USDtoZAR'].rolling(3).mean())\<close>, and
  line 55 after it, \<^verbatim>\<open>.interpolate()\<close>.
\<close>

definition rolling_fill :: "series \<Rightarrow> series" where
  "rolling_fill xs = fillna xs (rolling_mean 3 3 xs)"

definition USDtoZAR_Fill :: "series \<Rightarrow> series" where
  "USDtoZAR_Fill xs = interpolate (rolling_fill xs)"

text \<open>
  The first fill step as the specification words it: the mean of whichever of the three
  window positions hold a number, missing only when none does.
\<close>

definition spec_window_mean :: "series \<Rightarrow> nat \<Rightarrow> real option" where
  "spec_window_mean xs i =
     (let obs = observed (window 3 xs i) in if obs = [] then None else Some (mean obs))"

subsection \<open>Data frames\<close>

text \<open>
  A cell is a date, a number, a monthly period, a text or the missing value. A frame is
  the list of its labelled columns, in column order; the rows are the positions of the
  columns. \<open>getcol\<close> is \<^verbatim>\<open>df[c]\<close>, which raises \<^verbatim>\<open>KeyError\<close> for an unknown label;
  \<open>setcol\<close> is \<^verbatim>\<open>df[c] = values\<close>, which replaces the column in place or appends it.
\<close>

datatype val = VDate date | VNum real | VPeriod period | VStr string | NaN

type_synonym column = "val list"
type_synonym frame = "(string \<times> column) list"

definition labels :: "frame \<Rightarrow> string list" where
  "labels df = map fst df"

definition getcol :: "frame \<Rightarrow> string \<Rightarrow> error + column" where
  "getcol df c = (case map_of df c of None \<Rightarrow> Inl (KeyError c) | Some col \<Rightarrow> Inr col)"

definition setcol :: "frame \<Rightarrow> string \<Rightarrow> column \<Rightarrow> frame" where
  "setcol df c vs =
     (if c \<in> set (labels df)
      then map (\<lambda>(l, col). if l = c then (l, vs) else (l, col)) df
      else df @ [(c, vs)])"

definition to_series :: "column \<Rightarrow> series" where
  "to_series col = map (\<lambda>v. case v of VNum r \<Rightarrow> Some r | _ \<Rightarrow> None) col"

definition of_series :: "series \<Rightarrow> column" where
  "of_series xs = map (\<lambda>x. case x of Some r \<Rightarrow> VNum r | None \<Rightarrow> NaN) xs"

text \<open>
  Lines 34 to 40: the frame of the derived rates, sorted by date, the earliest date
  (\<^verbatim>\<open>NaT\<close> for an empty column) and the daily range from it to today, which
  \<^verbatim>\<open>date_range\<close> refuses to build from \<^verbatim>\<open>NaT\<close>.

  \<^verbatim>\<open>sort_values\<close> sorts with quicksort, which is not stable: which of the rows of one
  date comes first is the choice of the algorithm. That choice is the parameter
  \<open>argsort\<close>: from the keys it proposes an order of the row positions; the rows are
  taken in the proposed order (in their own order when the proposal is no permutation
  of the positions) and are then sorted by key, rows of equal key keeping the proposed
  order. Every order of the rows that is sorted by key is the result for some proposal
  (\<open>sort_values_order_reached\<close>), and keys without duplicates leave no choice.
\<close>

definition DataFrame_of_data :: "(date \<times> real) list \<Rightarrow> frame" where
  "DataFrame_of_data data =
     [(''InformationDate'', map (\<lambda>row. VDate (fst row)) data),
      (''USDtoZAR'', map (\<lambda>row. VNum (snd row)) data)]"

definition date_key :: "val \<Rightarrow> int" where
  "date_key v = (case v of VDate d \<Rightarrow> d | _ \<Rightarrow> 0)"

definition sort_order :: "(int list \<Rightarrow> nat list) \<Rightarrow> int list \<Rightarrow> nat list" where
  "sort_order argsort ks =
     (let proposed = argsort ks;
          start = (if sort proposed = [0..<length ks] then proposed else [0..<length ks])
      in sort_key (\<lambda>i. ks ! i) start)"

definition sort_values :: "(int list \<Rightarrow> nat list) \<Rightarrow> frame \<Rightarrow> string \<Rightarrow> error + frame" where
  "sort_values argsort df by =
     bind_result (getcol df by) (\<lambda>keys.
       let order = sort_order argsort (map date_key keys)
       in Inr (map (\<lambda>(l, col). (l, map (\<lambda>i. col ! i) order)) df))"

definition date_min :: "column \<Rightarrow> val" where
  "date_min col = (case [d. VDate d \<leftarrow> col] of [] \<Rightarrow> NaN | d # ds \<Rightarrow> VDate (fold min ds d))"

definition date_range :: "val \<Rightarrow> date \<Rightarrow> error + column" where
  "date_range start end = (case start of VDate s \<Rightarrow> Inr (map VDate [s..end]) | _ \<Rightarrow> Inl ValueError)"

text \<open>
  \<^verbatim>\<open>pd.merge(left, right, how="left")\<close>. The left key is a column label (\<^verbatim>\<open>on=\<close>) or an
  array of key values (\<^verbatim>\<open>left_on=\<close>); the right key is a column label. The indexer pairs
  every left row, in order, with each right row of equal key, or with no right row when
  there is none; the columns of the right table are missing in such a row. With the
  same label on both sides the right key column is dropped. Labels that occur on both
  sides take the suffixes. With an array as left key the key values become a column of
  their own, named by the right key, in front.
\<close>

datatype join_key = On_label string | On_array column

definition match_positions :: "column \<Rightarrow> val \<Rightarrow> nat list" where
  "match_positions rkeys k = filter (\<lambda>j. rkeys ! j = k) [0..<length rkeys]"

definition left_join_indexer :: "column \<Rightarrow> column \<Rightarrow> (nat \<times> nat option) list" where
  "left_join_indexer lkeys rkeys =
     concat (map (\<lambda>i. case match_positions rkeys (lkeys ! i) of
                          [] \<Rightarrow> [(i, None)]
                        | js \<Rightarrow> map (\<lambda>j. (i, Some j)) js)
                 [0..<length lkeys])"

definition take_left :: "(nat \<times> nat option) list \<Rightarrow> column \<Rightarrow> column" where
  "take_left idx col = map (\<lambda>(i, _). col ! i) idx"

definition take_right :: "(nat \<times> nat option) list \<Rightarrow> column \<Rightarrow> column" where
  "take_right idx col = map (\<lambda>(_, j). case j of None \<Rightarrow> NaN | Some j \<Rightarrow> col ! j) idx"

definition merge_left ::
  "frame \<Rightarrow> frame \<Rightarrow> join_key \<Rightarrow> string \<Rightarrow> string \<times> string \<Rightarrow> error + frame" where
  "merge_left left right left_on right_on suffixes =
     bind_result (case left_on of On_label l \<Rightarrow> getcol left l | On_array a \<Rightarrow> Inr a) (\<lambda>lkeys.
     bind_result (getcol right right_on) (\<lambda>rkeys.
       if list_ex (\<lambda>col. length col \<noteq> length lkeys) (map snd left) then Inl ValueError
       else
         let idx = left_join_indexer lkeys rkeys;
             right' = (if left_on = On_label right_on
                       then filter (\<lambda>(l, _). l \<noteq> right_on) right else right);
             overlap = filter (\<lambda>l. l \<in> set (labels right')) (labels left);
             lcols = map (\<lambda>(l, col). (if l \<in> set overlap then l @ fst suffixes else l,
                                      take_left idx col)) left;
             rcols = map (\<lambda>(l, col). (if l \<in> set overlap then l @ snd suffixes else l,
                                      take_right idx col)) right';
             result = lcols @ rcols
         in Inr (case left_on of
                   On_label _ \<Rightarrow> result
                 | On_array _ \<Rightarrow>
                     if right_on \<in> set (labels result)
                     then setcol result right_on (take_left idx lkeys)
                     else (right_on, take_left idx lkeys) # result)))"

text \<open>
  \<^verbatim>\<open>drop(columns=...)\<close> raises \<^verbatim>\<open>KeyError\<close> when a label is not a column;
  \<^verbatim>\<open>rename(columns=...)\<close> renames the columns it finds.
\<close>

definition drop_columns :: "frame \<Rightarrow> string list \<Rightarrow> error + frame" where
  "drop_columns df cs =
     (case filter (\<lambda>c. c \<notin> set (labels df)) cs of
        [] \<Rightarrow> Inr (filter (\<lambda>(l, _). l \<notin> set cs) df)
      | c # _ \<Rightarrow> Inl (KeyError c))"

definition rename_columns :: "frame \<Rightarrow> (string \<times> string) list \<Rightarrow> frame" where
  "rename_columns df mapping =
     map (\<lambda>(l, col). (case map_of mapping l of None \<Rightarrow> l | Some l' \<Rightarrow> l', col)) df"

text \<open>
  \<^verbatim>\<open>.dt.to_period("M")\<close>, \<^verbatim>\<open>.astype(str)\<close> on periods, and
  \<^verbatim>\<open>groupby(by)[c].mean().reset_index()\<close>: the groups are the distinct keys in ascending
  order, a row with a missing key belongs to no group, and the mean of a group skips
  missing values, being missing itself when the group has none.
\<close>

definition dt_to_period_M :: "column \<Rightarrow> column" where
  "dt_to_period_M col = map (\<lambda>v. case v of VDate d \<Rightarrow> VPeriod (to_period_M d) | _ \<Rightarrow> NaN) col"

definition astype_str :: "column \<Rightarrow> column" where
  "astype_str col = map (\<lambda>v. case v of VPeriod p \<Rightarrow> VStr (period_str p) | _ \<Rightarrow> v) col"

definition nanmean :: "series \<Rightarrow> real option" where
  "nanmean vs = (case observed vs of [] \<Rightarrow> None | obs \<Rightarrow> Some (mean obs))"

definition group_mean :: "(period \<times> real option) list \<Rightarrow> (period \<times> real option) list" where
  "group_mean rows =
     map (\<lambda>k. (k, nanmean (map snd (filter (\<lambda>row. fst row = k) rows))))
         (sort (remdups (map fst rows)))"

definition groupby_mean :: "frame \<Rightarrow> string \<Rightarrow> string \<Rightarrow> error + frame" where
  "groupby_mean df by c =
     bind_result (getcol df by) (\<lambda>keys.
     bind_result (getcol df c) (\<lambda>vals.
       let groups = group_mean [(p, v). (VPeriod p, v) \<leftarrow> zip keys (to_series vals)]
       in Inr [(by, map (\<lambda>g. VPeriod (fst g)) groups), (c, of_series (map snd groups))]))"

subsection \<open>The pipeline (lines 34 to 73)\<close>

text \<open>
  \<open>df_full_of\<close> is lines 34 to 55, \<open>add_YearMonth\<close> line 58, \<open>monthly_avg_df_of\<close> lines
  59 and 60, \<open>combined_df_of\<close> lines 63 to 73.
\<close>

definition df_full_of ::
  "(int list \<Rightarrow> nat list) \<Rightarrow> (date \<times> real) list \<Rightarrow> date \<Rightarrow> error + frame" where
  "df_full_of argsort data today =
     (let df = DataFrame_of_data data in
      bind_result (sort_values argsort df ''InformationDate'') (\<lambda>df.
      bind_result (getcol df ''InformationDate'') (\<lambda>dates.
      bind_result (date_range (date_min dates) today) (\<lambda>all_dates.
      let df_full = [(''InformationDate'', all_dates)] in
      bind_result (merge_left df_full df (On_label ''InformationDate'') ''InformationDate''
                     (''_x'', ''_y'')) (\<lambda>df_full.
      bind_result (getcol df_full ''USDtoZAR'') (\<lambda>usd.
      let df_full = setcol df_full ''USDtoZAR_Fill'' (of_series (rolling_fill (to_series usd))) in
      bind_result (getcol df_full ''USDtoZAR_Fill'') (\<lambda>fill.
      Inr (setcol df_full ''USDtoZAR_Fill'' (of_series (interpolate (to_series fill)))))))))))"

definition add_YearMonth :: "frame \<Rightarrow> error + frame" where
  "add_YearMonth df_full =
     bind_result (getcol df_full ''InformationDate'') (\<lambda>dates.
     Inr (setcol df_full ''YearMonth'' (dt_to_period_M dates)))"

definition monthly_avg_df_of :: "frame \<Rightarrow> error + frame" where
  "monthly_avg_df_of df_full =
     bind_result (groupby_mean df_full ''YearMonth'' ''USDtoZAR_Fill'') (\<lambda>monthly_avg_df.
     bind_result (getcol monthly_avg_df ''YearMonth'') (\<lambda>ym.
     Inr (setcol monthly_avg_df ''YearMonth'' (astype_str ym))))"

definition combined_df_of :: "frame \<Rightarrow> frame \<Rightarrow> error + frame" where
  "combined_df_of df_full monthly_avg_df =
     bind_result (getcol df_full ''InformationDate'') (\<lambda>dates.
     bind_result (merge_left df_full monthly_avg_df
                    (On_array (astype_str (dt_to_period_M dates))) ''YearMonth''
                    (''_daily'', ''_monthly'')) (\<lambda>combined_df.
     bind_result (drop_columns combined_df
                    [''YearMonth'', ''YearMonth_daily'', ''YearMonth_monthly'']) (\<lambda>combined_df.
     Inr (rename_columns combined_df
            [(''USDtoZAR_Fill_daily'', ''USDtoZAR_Fill''),
             (''USDtoZAR_Fill_monthly'', ''USDtoZAR_MonthlyAver'')]))))"

definition daily_with_monthly :: "frame \<Rightarrow> error + frame" where
  "daily_with_monthly df_full =
     bind_result (add_YearMonth df_full) (\<lambda>df_full.
     bind_result (monthly_avg_df_of df_full) (\<lambda>monthly_avg_df.
     combined_df_of df_full monthly_avg_df))"

definition process :: "(int list \<Rightarrow> nat list) \<Rightarrow> cube list \<Rightarrow> date \<Rightarrow> error + frame" where
  "process argsort cubes today =
     bind_result (extract_rates cubes []) (\<lambda>data.
     bind_result (df_full_of argsort data today) daily_with_monthly)"

subsection \<open>The script (lines 10 to 107)\<close>

text \<open>
  The response of \<^verbatim>\<open>requests.get\<close> is an input: its status code and its content, the
  content being given as the dated tables the XML document holds. The run date and the
  choice of the sort among rows of one date are inputs too. What the script does
  to the outside is recorded as a list of events, in order; an uncaught exception ends
  the run and is returned beside the events that happened before it.
\<close>

record response =
  status_code :: int
  content :: "cube list"

datatype event =
    Print_text string
  | Print_frame frame
  | To_csv string frame
  | Figure
  | Plot column column string
  | Xlabel string
  | Ylabel string
  | Title string
  | Xticks
  | Grid
  | Tight_layout
  | Show

text \<open>
  Lines 85 to 107 stand after the \<^verbatim>\<open>if\<close>/\<^verbatim>\<open>else\<close>, so they run on both branches. The
  name \<^verbatim>\<open>combined_df\<close> is bound only by the successful branch: \<open>None\<close> is the unbound
  name, and reading it raises \<^verbatim>\<open>NameError\<close>.
\<close>

definition plot_section :: "frame option \<Rightarrow> event list \<Rightarrow> event list \<times> error option" where
  "plot_section combined_df out =
     (let out = out @ [Figure]
      in case combined_df of
           None \<Rightarrow> (out, Some (NameError ''combined_df''))
         | Some df \<Rightarrow>
             (case bind_result (getcol df ''InformationDate'') (\<lambda>x.
                   bind_result (getcol df ''USDtoZAR'') (\<lambda>y. Inr (x, y))) of
                Inl e \<Rightarrow> (out, Some e)
              | Inr (x, y) \<Rightarrow>
                  (let out = out @ [Plot x y ''USD to ZAR Exchange Rate (Daily)'',
                                    Xlabel ''Date'', Ylabel ''USD to ZAR'',
                                    Title ''USD to ZAR Exchange Rate (Daily)'',
                                    Xticks, Grid, Tight_layout, Figure]
                   in case bind_result (getcol df ''InformationDate'') (\<lambda>x.
                           bind_result (getcol df ''USDtoZAR_MonthlyAver'') (\<lambda>y. Inr (x, y))) of
                        Inl e \<Rightarrow> (out, Some e)
                      | Inr (x, y) \<Rightarrow>
                          (out @ [Plot x y ''Monthly Average USD to ZAR'',
                                  Xlabel ''Year-Month'', Ylabel ''USD to ZAR (Monthly Average)'',
                                  Title ''USD to ZAR Exchange Rate (Monthly Average)'',
                                  Xticks, Grid, Tight_layout, Show],
                           None))))"

definition main ::
  "(int list \<Rightarrow> nat list) \<Rightarrow> response \<Rightarrow> date \<Rightarrow> event list \<times> error option" where
  "main argsort resp today =
     (if status_code resp = 200
      then (case process argsort (content resp) today of
              Inl e \<Rightarrow> ([], Some e)
            | Inr combined_df \<Rightarrow>
                plot_section (Some combined_df)
                  [To_csv ''USDtoZAR_ExchangeRates.csv'' combined_df,
                   Print_text ''Combined daily and monthly average exchange rates with extrapolated values saved to USDtoZAR_ExchangeRates.csv'',
                   Print_frame combined_df])
      else plot_section None
             [Print_text ''Failed to fetch historical exchange rate data from ECB.''])"

subsection \<open>Notions used to state the properties\<close>

definition both_present :: "cube \<Rightarrow> bool" where
  "both_present c = (rates_of (snd c) ''USD'' \<noteq> None \<and> rates_of (snd c) ''ZAR'' \<noteq> None)"

definition usd_rate :: "cube \<Rightarrow> real" where
  "usd_rate c = the (rates_of (snd c) ''USD'')"

definition zar_rate :: "cube \<Rightarrow> real" where
  "zar_rate c = the (rates_of (snd c) ''ZAR'')"

definition cross_rate :: "cube \<Rightarrow> date \<times> real" where
  "cross_rate c = (fst c, zar_rate c / usd_rate c)"

definition numeral_value :: "string \<Rightarrow> nat" where
  "numeral_value s = foldl (\<lambda>a c. a * 10 + (of_char c - 48)) 0 s"

definition month_values :: "(period \<times> real option) list \<Rightarrow> period \<Rightarrow> real list" where
  "month_values rows k =
     map (\<lambda>r. the (snd r)) (filter (\<lambda>r. fst r = k \<and> snd r \<noteq> None) rows)"

definition daily_frame :: "date list \<Rightarrow> column \<Rightarrow> column \<Rightarrow> frame" where
  "daily_frame ds raw fill =
     [(''InformationDate'', map VDate ds), (''USDtoZAR'', raw), (''USDtoZAR_Fill'', fill)]"

definition monthly_rows :: "date list \<Rightarrow> column \<Rightarrow> (period \<times> real option) list" where
  "monthly_rows ds fill = group_mean (zip (map to_period_M ds) (to_series fill))"

definition month_keys :: "date list \<Rightarrow> column" where
  "month_keys ds = map (\<lambda>d. VStr (period_str (to_period_M d))) ds"

definition month_average :: "date list \<Rightarrow> column \<Rightarrow> date \<Rightarrow> val" where
  "month_average ds fill d =
     (case map_of (monthly_rows ds fill) (to_period_M d) of
        Some (Some a) \<Rightarrow> VNum a
      | _ \<Rightarrow> NaN)"

definition matched :: "column \<Rightarrow> val \<Rightarrow> nat option" where
  "matched rkeys k = (case match_positions rkeys k of [] \<Rightarrow> None | j # _ \<Rightarrow> Some j)"

section \<open>Properties of the series operations\<close>

lemma length_rolling_mean [simp]: "length (rolling_mean w m xs) = length xs"
  by (simp add: rolling_mean_def)

lemma length_fillna [simp]: "length (fillna xs other) = min (length xs) (length other)"
  by (simp add: fillna_def)

lemma length_interpolate [simp]: "length (interpolate xs) = length xs"
  by (simp add: interpolate_def)

lemma window3_full:
  assumes "2 \<le> i" and "i < length xs"
  shows "window 3 xs i = [xs ! (i - 2), xs ! (i - 1), xs ! i]"
proof (rule nth_equalityI)
  show "length (window 3 xs i) = length [xs ! (i - 2), xs ! (i - 1), xs ! i]"
    using assms by (simp add: window_def)
next
  fix k assume "k < length (window 3 xs i)"
  then have k: "k < 3" using assms by (simp add: window_def)
  then consider "k = 0" | "k = 1" | "k = 2" by linarith
  then show "window 3 xs i ! k = [xs ! (i - 2), xs ! (i - 1), xs ! i] ! k"
  proof cases
    case 1 then show ?thesis using assms by (simp add: window_def)
  next
    case 2
    moreover have "Suc (i - 2) = i - 1" using assms by linarith
    ultimately show ?thesis using assms by (simp add: window_def)
  next
    case 3
    moreover have "i - 2 + 2 = i" using assms by linarith
    ultimately show ?thesis using assms by (simp add: window_def)
  qed
qed

lemma window3_short:
  assumes "i < 2"
  shows "length (window 3 xs i) \<le> 2"
  using assms by (simp add: window_def)

lemma length_observed_le: "length (observed ys) \<le> length ys"
  by (simp add: observed_def)

lemma rolling_mean_nth:
  assumes "i < length xs"
  shows "rolling_mean w m xs ! i =
           (let obs = observed (window w xs i)
            in if m \<le> length obs \<and> obs \<noteq> [] then Some (mean obs) else None)"
  using assms by (simp add: rolling_mean_def)

lemma rolling3_nth:
  assumes "i < length xs"
  shows "rolling_mean 3 3 xs ! i =
           (if 2 \<le> i \<and> xs ! (i - 2) \<noteq> None \<and> xs ! (i - 1) \<noteq> None \<and> xs ! i \<noteq> None
            then Some ((the (xs ! (i - 2)) + the (xs ! (i - 1)) + the (xs ! i)) / 3)
            else None)"
proof (cases "2 \<le> i")
  case True
  then have w: "window 3 xs i = [xs ! (i - 2), xs ! (i - 1), xs ! i]"
    using assms by (rule window3_full)
  show ?thesis
    using True assms by (simp add: rolling_mean_nth w observed_def mean_def Let_def)
next
  case False
  then have "length (window 3 xs i) \<le> 2" by (simp add: window3_short)
  then have "length (observed (window 3 xs i)) \<le> 2"
    using length_observed_le [of "window 3 xs i"] by linarith
  then show ?thesis
    using False assms by (simp add: rolling_mean_nth Let_def)
qed

lemma fillna_nth:
  assumes "i < length xs" and "i < length other"
  shows "fillna xs other ! i = (case xs ! i of None \<Rightarrow> other ! i | Some v \<Rightarrow> Some v)"
  using assms by (simp add: fillna_def)

lemma fillna_rolling3_id: "fillna xs (rolling_mean 3 3 xs) = xs"
proof (rule nth_equalityI)
  show "length (fillna xs (rolling_mean 3 3 xs)) = length xs" by simp
next
  fix i assume "i < length (fillna xs (rolling_mean 3 3 xs))"
  then have i: "i < length xs" by simp
  show "fillna xs (rolling_mean 3 3 xs) ! i = xs ! i"
    using i by (cases "xs ! i") (simp_all add: fillna_nth rolling3_nth)
qed

lemma rolling_fill_id: "rolling_fill xs = xs"
  by (simp add: rolling_fill_def fillna_rolling3_id)

lemma USDtoZAR_Fill_interpolate: "USDtoZAR_Fill xs = interpolate xs"
  by (simp add: USDtoZAR_Fill_def rolling_fill_id)

lemma prev_valid_None_iff:
  "prev_valid xs i = None \<longleftrightarrow> (\<forall>j<i. xs ! j = None)"
  by (auto simp: prev_valid_def find_None_iff)

lemma prev_valid_SomeD:
  assumes "prev_valid xs i = Some p"
  shows "p < i \<and> xs ! p \<noteq> None \<and> (\<forall>j. p < j \<and> j < i \<longrightarrow> xs ! j = None)"
proof -
  from assms obtain k where k: "k < i" and p: "p = i - Suc k" and P: "xs ! p \<noteq> None"
    and least: "\<forall>l<k. xs ! (i - Suc l) = None"
    by (auto simp: prev_valid_def find_Some_iff rev_nth)
  have "xs ! j = None" if "p < j" "j < i" for j
  proof -
    have "i - Suc j < k" using that p k by linarith
    then have "xs ! (i - Suc (i - Suc j)) = None" using least by blast
    moreover have "i - Suc (i - Suc j) = j" using that by linarith
    ultimately show ?thesis by simp
  qed
  then show ?thesis using k p P by auto
qed

lemma next_valid_None_iff:
  "next_valid xs i = None \<longleftrightarrow> (\<forall>j. i < j \<and> j < length xs \<longrightarrow> xs ! j = None)"
  by (auto simp: next_valid_def find_None_iff)

lemma next_valid_SomeD:
  assumes "next_valid xs i = Some q"
  shows "i < q \<and> q < length xs \<and> xs ! q \<noteq> None \<and> (\<forall>j. i < j \<and> j < q \<longrightarrow> xs ! j = None)"
proof -
  from assms obtain k where k0: "k < length [Suc i..<length xs]"
    and P0: "xs ! ([Suc i..<length xs] ! k) \<noteq> None"
    and q0: "q = [Suc i..<length xs] ! k"
    and least0: "\<forall>l<k. \<not> xs ! ([Suc i..<length xs] ! l) \<noteq> None"
    unfolding next_valid_def find_Some_iff by blast
  have k: "Suc i + k < length xs" using k0 by simp
  have q: "q = Suc i + k" using q0 k0 by simp
  have P: "xs ! q \<noteq> None" using P0 q0 by simp
  have least: "\<forall>l<k. xs ! (Suc i + l) = None"
  proof (intro allI impI)
    fix l assume "l < k"
    then show "xs ! (Suc i + l) = None" using least0 k0 by simp
  qed
  have "xs ! j = None" if "i < j" "j < q" for j
  proof -
    have "j - Suc i < k" using that q by linarith
    then have "xs ! (Suc i + (j - Suc i)) = None" using least by blast
    moreover have "Suc i + (j - Suc i) = j" using that by linarith
    ultimately show ?thesis by simp
  qed
  then show ?thesis using k q P by auto
qed

lemma interpolate_nth:
  assumes "i < length xs"
  shows "interpolate xs ! i = interpolate_at xs i"
  using assms by (simp add: interpolate_def)

lemma interpolate_at_None_iff:
  "interpolate_at xs i = None \<longleftrightarrow> (\<forall>k\<le>i. xs ! k = None)"
proof (cases "xs ! i")
  case (Some v)
  then have "interpolate_at xs i = Some v" by (simp add: interpolate_at_def)
  moreover have "\<not> (\<forall>k\<le>i. xs ! k = None)"
  proof
    assume "\<forall>k\<le>i. xs ! k = None"
    then have "xs ! i = None" by blast
    then show False using Some by simp
  qed
  ultimately show ?thesis by simp
next
  case None
  show ?thesis
  proof (cases "prev_valid xs i")
    case pn: None
    then have "\<forall>j<i. xs ! j = None" by (simp add: prev_valid_None_iff)
    have "\<forall>k\<le>i. xs ! k = None"
    proof (intro allI impI)
      fix k assume "k \<le> i"
      then have "k < i \<or> k = i" by linarith
      then show "xs ! k = None" using None \<open>\<forall>j<i. xs ! j = None\<close> by blast
    qed
    then show ?thesis using None pn by (simp add: interpolate_at_def)
  next
    case (Some p)
    then have p: "p < i" "xs ! p \<noteq> None" using prev_valid_SomeD by blast+
    then have "interpolate_at xs i \<noteq> None"
      using None Some by (auto simp: interpolate_at_def split: option.splits)
    moreover have "\<not> (\<forall>k\<le>i. xs ! k = None)"
    proof
      assume "\<forall>k\<le>i. xs ! k = None"
      moreover have "p \<le> i" using p by simp
      ultimately have "xs ! p = None" by blast
      then show False using p by simp
    qed
    ultimately show ?thesis by blast
  qed
qed

lemma interpolate_nth_None_iff:
  assumes "i < length xs"
  shows "interpolate xs ! i = None \<longleftrightarrow> (\<forall>k\<le>i. xs ! k = None)"
  using assms by (simp add: interpolate_nth interpolate_at_None_iff)

lemma prev_valid_eqI:
  assumes "p < i" and "xs ! p \<noteq> None" and "\<forall>k. p < k \<and> k < i \<longrightarrow> xs ! k = None"
  shows "prev_valid xs i = Some p"
proof (cases "prev_valid xs i")
  case None
  then show ?thesis using assms by (simp add: prev_valid_None_iff)
next
  case (Some p')
  from prev_valid_SomeD [OF Some]
  have p': "p' < i" "xs ! p' \<noteq> None" "\<forall>j. p' < j \<and> j < i \<longrightarrow> xs ! j = None"
    by simp_all
  have "\<not> p' < p"
  proof
    assume "p' < p"
    then have "xs ! p = None" using p'(3) assms(1) by blast
    then show False using assms(2) by simp
  qed
  moreover have "\<not> p < p'"
  proof
    assume "p < p'"
    then have "xs ! p' = None" using assms(3) p'(1) by blast
    then show False using p'(2) by simp
  qed
  ultimately show ?thesis using Some by simp
qed

lemma next_valid_eqI:
  assumes "i < q" and "q < length xs" and "xs ! q \<noteq> None"
    and "\<forall>k. i < k \<and> k < q \<longrightarrow> xs ! k = None"
  shows "next_valid xs i = Some q"
proof (cases "next_valid xs i")
  case None
  then show ?thesis using assms by (simp add: next_valid_None_iff)
next
  case (Some q')
  from next_valid_SomeD [OF Some]
  have q': "i < q'" "q' < length xs" "xs ! q' \<noteq> None"
    "\<forall>j. i < j \<and> j < q' \<longrightarrow> xs ! j = None"
    by simp_all
  have "\<not> q' < q"
  proof
    assume "q' < q"
    then have "xs ! q' = None" using assms(4) q'(1) by blast
    then show False using q'(3) by simp
  qed
  moreover have "\<not> q < q'"
  proof
    assume "q < q'"
    then have "xs ! q = None" using q'(4) assms(1) by blast
    then show False using assms(3) by simp
  qed
  ultimately show ?thesis using Some by simp
qed

lemma interpolate_between:
  assumes "p < i" and "i < q" and "q < length xs"
    and "xs ! p = Some a" and "xs ! q = Some b"
    and "\<forall>k. p < k \<and> k < q \<longrightarrow> xs ! k = None"
  shows "interpolate xs ! i = Some (interp p a q b i)"
proof -
  have gap: "xs ! k = None" if "p < k" "k < q" for k using assms(6) that by blast
  have "xs ! i = None" using gap assms(1,2) by blast
  moreover have "prev_valid xs i = Some p"
  proof (rule prev_valid_eqI)
    show "p < i" by fact
    show "xs ! p \<noteq> None" using assms(4) by simp
    show "\<forall>k. p < k \<and> k < i \<longrightarrow> xs ! k = None" using gap assms(2) by auto
  qed
  moreover have "next_valid xs i = Some q"
  proof (rule next_valid_eqI)
    show "i < q" by fact
    show "q < length xs" by fact
    show "xs ! q \<noteq> None" using assms(5) by simp
    show "\<forall>k. i < k \<and> k < q \<longrightarrow> xs ! k = None" using gap assms(1) by auto
  qed
  ultimately show ?thesis using assms by (simp add: interpolate_nth interpolate_at_def)
qed

lemma interpolate_after_last:
  assumes "p < j" and "j < length xs" and "xs ! p = Some v"
    and "\<forall>k. p < k \<and> k < length xs \<longrightarrow> xs ! k = None"
  shows "interpolate xs ! j = Some v"
proof -
  have "xs ! j = None" using assms by blast
  moreover have "prev_valid xs j = Some p"
  proof (rule prev_valid_eqI)
    show "p < j" by fact
    show "xs ! p \<noteq> None" using assms(3) by simp
    show "\<forall>k. p < k \<and> k < j \<longrightarrow> xs ! k = None" using assms(2,4) by auto
  qed
  moreover have "next_valid xs j = None"
    using assms by (simp add: next_valid_None_iff)
  ultimately show ?thesis using assms by (simp add: interpolate_nth interpolate_at_def)
qed

section \<open>Properties of the extraction loop\<close>

lemma extract_rates_Cons:
  "extract_rates (c # cubes) data =
     (if both_present c
      then (if usd_rate c = 0 then Inl ZeroDivisionError
            else extract_rates cubes (data @ [cross_rate c]))
      else extract_rates cubes data)"
  by (cases c)
    (simp add: both_present_def usd_rate_def zar_rate_def cross_rate_def truediv_def Let_def)

lemma extract_rates_acc:
  "extract_rates cubes data =
     (if \<exists>c \<in> set cubes. both_present c \<and> usd_rate c = 0 then Inl ZeroDivisionError
      else Inr (data @ map cross_rate (filter both_present cubes)))"
proof (induction cubes arbitrary: data)
  case Nil
  then show ?case by simp
next
  case (Cons c cubes)
  show ?case
  proof (cases "both_present c")
    case False
    then show ?thesis
      using Cons.IH [of data] by (simp add: extract_rates_Cons del: extract_rates.simps)
  next
    case True
    show ?thesis
    proof (cases "usd_rate c = 0")
      case zero: True
      then show ?thesis
        using True by (auto simp: extract_rates_Cons simp del: extract_rates.simps)
    next
      case False
      then show ?thesis
        using True Cons.IH [of "data @ [cross_rate c]"]
        by (simp add: extract_rates_Cons del: extract_rates.simps)
    qed
  qed
qed

lemma feed_facts:
  "both_present (1, [(''USD'', 11 / 10), (''ZAR'', 39 / 2)])"
  "\<not> both_present (2, [(''USD'', 11 / 10)])"
  "usd_rate (1, [(''USD'', 11 / 10), (''ZAR'', 39 / 2)]) = 11 / 10"
  "zar_rate (1, [(''USD'', 11 / 10), (''ZAR'', 39 / 2)]) = 39 / 2"
  by (simp_all add: both_present_def usd_rate_def zar_rate_def rates_of_def)

section \<open>The text of a monthly period determines the period\<close>

lemma numeral_value_snoc: "numeral_value (s @ [c]) = numeral_value s * 10 + (of_char c - 48)"
  by (simp add: numeral_value_def)

lemma of_char_digit: "n < 10 \<Longrightarrow> of_char (digit n) = 48 + n"
  by (simp add: digit_def)

lemma numeral_value_decimal: "numeral_value (decimal n) = n"
proof (induction n rule: decimal.induct)
  case (1 n)
  show ?case
  proof (cases "n < 10")
    case True
    then show ?thesis
      by (simp add: decimal.simps [of n] numeral_value_def of_char_digit)
  next
    case False
    then have "numeral_value (decimal (n div 10)) = n div 10" using 1 by simp
    moreover have "n mod 10 < 10" by simp
    ultimately show ?thesis
      using False by (simp add: decimal.simps [of n] numeral_value_snoc of_char_digit)
  qed
qed

lemma foldl_zeros:
  "foldl (\<lambda>a c. a * 10 + (of_char c - 48)) (0::nat) (replicate k (CHR ''0'')) = 0"
  by (induction k) simp_all

lemma numeral_value_zfill: "numeral_value (zfill w (decimal n)) = n"
proof -
  have "numeral_value (zfill w (decimal n)) = numeral_value (decimal n)"
    by (simp add: zfill_def numeral_value_def foldl_zeros)
  then show ?thesis by (simp add: numeral_value_decimal)
qed

lemma zfill_decimal_inj: "zfill w (decimal a) = zfill w (decimal b) \<Longrightarrow> a = b"
  by (metis numeral_value_zfill)

lemma decimal_not_minus: "CHR ''-'' \<notin> set (decimal n)"
proof (induction n rule: decimal.induct)
  case (1 n)
  have d: "digit k \<noteq> CHR ''-''" if "k < 10" for k
  proof
    assume "digit k = CHR ''-''"
    then have "of_char (digit k) = (of_char (CHR ''-'') :: nat)" by simp
    then show False using that by (simp add: of_char_digit)
  qed
  show ?case
  proof (cases "n < 10")
    case True
    then show ?thesis using d [of n] by (auto simp: decimal.simps [of n])
  next
    case False
    moreover have "n mod 10 < 10" by simp
    ultimately show ?thesis
      using 1 d [of "n mod 10"] by (auto simp: decimal.simps [of n])
  qed
qed

lemma zfill_not_minus: "CHR ''-'' \<notin> set (zfill w (decimal n))"
  using decimal_not_minus [of n] by (auto simp: zfill_def)

lemma decimal_nonempty: "decimal n \<noteq> []"
  by (simp add: decimal.simps [of n])

lemma zfill_nonempty: "zfill w (decimal n) \<noteq> []"
  by (simp add: zfill_def decimal_nonempty)

lemma length_decimal_small:
  assumes "n < 100"
  shows "length (decimal n) \<le> 2"
proof (cases "n < 10")
  case True
  then show ?thesis by (simp add: decimal.simps [of n])
next
  case False
  moreover have "n div 10 < 10" using assms by simp
  ultimately show ?thesis by (simp add: decimal.simps [of n] decimal.simps [of "n div 10"])
qed

lemma length_zfill2: "n < 100 \<Longrightarrow> length (zfill 2 (decimal n)) = 2"
  using length_decimal_small [of n] by (simp add: zfill_def)

lemma year_str_inj: "year_str a = year_str b \<Longrightarrow> a = b"
proof -
  assume eq: "year_str a = year_str b"
  have mixed: False if "x < 0" "\<not> y < 0" "year_str x = year_str y" for x y :: int
  proof -
    have "hd (year_str x) = CHR ''-''" using that(1) by (simp add: year_str_def)
    moreover have "hd (year_str y) \<in> set (zfill 4 (decimal (nat y)))"
      using that(2) zfill_nonempty by (simp add: year_str_def)
    ultimately show False using that zfill_not_minus by metis
  qed
  show ?thesis
  proof (cases "a < 0")
    case True
    then have bneg: "b < 0" using mixed [of a b] eq by blast
    then have "zfill 4 (decimal (nat (- a))) = zfill 4 (decimal (nat (- b)))"
      using True eq by (simp add: year_str_def)
    then have "nat (- a) = nat (- b)" by (rule zfill_decimal_inj)
    then show ?thesis using True bneg by linarith
  next
    case False
    then have bpos: "\<not> b < 0" using mixed [of b a] eq by metis
    then have "zfill 4 (decimal (nat a)) = zfill 4 (decimal (nat b))"
      using False eq by (simp add: year_str_def)
    then have "nat a = nat b" by (rule zfill_decimal_inj)
    then show ?thesis using False bpos by linarith
  qed
qed

lemma period_str_eq:
  "period_str p = year_str (1970 + p div 12) @ ''-'' @ zfill 2 (decimal (nat (p mod 12 + 1)))"
  by (simp add: period_str_def Let_def)

lemma period_str_inj: "period_str p = period_str q \<Longrightarrow> p = q"
proof -
  assume eq: "period_str p = period_str q"
  have lp: "length (''-'' @ zfill 2 (decimal (nat (p mod 12 + 1)))) = 3"
    by (simp add: length_zfill2)
  have lq: "length (''-'' @ zfill 2 (decimal (nat (q mod 12 + 1)))) = 3"
    by (simp add: length_zfill2)
  from eq have "year_str (1970 + p div 12) @ (''-'' @ zfill 2 (decimal (nat (p mod 12 + 1)))) =
                year_str (1970 + q div 12) @ (''-'' @ zfill 2 (decimal (nat (q mod 12 + 1))))"
    by (simp only: period_str_eq)
  then have "year_str (1970 + p div 12) = year_str (1970 + q div 12) \<and>
             ''-'' @ zfill 2 (decimal (nat (p mod 12 + 1))) = ''-'' @ zfill 2 (decimal (nat (q mod 12 + 1)))"
    using lp lq by (subst (asm) append_eq_append_conv) simp_all
  then have y: "1970 + p div 12 = 1970 + q div 12"
    and m: "zfill 2 (decimal (nat (p mod 12 + 1))) = zfill 2 (decimal (nat (q mod 12 + 1)))"
    using year_str_inj [of "1970 + p div 12" "1970 + q div 12"] by simp_all
  from m have "nat (p mod 12 + 1) = nat (q mod 12 + 1)" by (rule zfill_decimal_inj)
  then have "p mod 12 = q mod 12" by simp
  moreover from y have "p div 12 = q div 12" by simp
  ultimately show ?thesis by (metis mult_div_mod_eq)
qed

section \<open>Properties of the monthly aggregation\<close>

lemma nanmean_eq:
  "nanmean vs = (if observed vs = [] then None
                 else Some (sum_list (observed vs) / real (length (observed vs))))"
  by (cases "observed vs") (simp_all add: nanmean_def mean_def)

lemma observed_month:
  "observed (map snd (filter (\<lambda>row. fst row = k) rows)) = month_values rows k"
  by (induction rows) (auto simp: observed_def month_values_def)

lemma group_mean_keys: "map fst (group_mean rows) = sort (remdups (map fst rows))"
  by (simp add: group_mean_def o_def)

lemma group_mean_distinct: "distinct (map fst (group_mean rows))"
  by (simp add: group_mean_keys)

lemma group_mean_key_set: "set (map fst (group_mean rows)) = fst ` set rows"
  by (simp add: group_mean_keys)

lemma group_mean_value:
  assumes "(k, a) \<in> set (group_mean rows)"
  shows "a = nanmean (map snd (filter (\<lambda>row. fst row = k) rows))"
  using assms by (auto simp: group_mean_def)

lemma group_mean_example:
  "group_mean [(648, None), (649, Some 2), (648, None), (649, Some 4), (649, None)] =
     [(648, None), (649, Some 3)]"
  by (simp add: group_mean_def nanmean_def observed_def mean_def)

section \<open>Properties of the frame operations\<close>

lemma add_YearMonth_daily:
  "add_YearMonth (daily_frame ds raw fill) =
     Inr (daily_frame ds raw fill @ [(''YearMonth'', map (\<lambda>d. VPeriod (to_period_M d)) ds)])"
  by (simp add: add_YearMonth_def daily_frame_def getcol_def setcol_def labels_def
      bind_result_def dt_to_period_M_def)

lemma period_rows:
  "length xs = length ds \<Longrightarrow>
   [(p, v). (VPeriod p, v) \<leftarrow> zip (map (\<lambda>d. VPeriod (to_period_M d)) ds) xs]
     = zip (map to_period_M ds) xs"
  by (induction ds arbitrary: xs) (auto simp: length_Suc_conv)

lemma monthly_avg_df_daily:
  assumes "length fill = length ds"
  shows "monthly_avg_df_of
           (daily_frame ds raw fill @ [(''YearMonth'', map (\<lambda>d. VPeriod (to_period_M d)) ds)])
         = Inr [(''YearMonth'', map (\<lambda>g. VStr (period_str (fst g))) (monthly_rows ds fill)),
                (''USDtoZAR_Fill'', of_series (map snd (monthly_rows ds fill)))]"
proof -
  have "length (to_series fill) = length ds" using assms by (simp add: to_series_def)
  then show ?thesis
    by (simp add: monthly_avg_df_of_def groupby_mean_def daily_frame_def getcol_def
        setcol_def labels_def bind_result_def astype_str_def period_rows monthly_rows_def
        Let_def o_def)
qed


lemma combined_df_daily:
  assumes "length raw = length ds" and "length fill = length ds"
  shows "combined_df_of
           (daily_frame ds raw fill @ [(''YearMonth'', map (\<lambda>d. VPeriod (to_period_M d)) ds)])
           [(''YearMonth'', rkeys), (''USDtoZAR_Fill'', avg)]
         = (let idx = left_join_indexer (month_keys ds) rkeys
            in Inr [(''InformationDate'', take_left idx (map VDate ds)),
                    (''USDtoZAR'', take_left idx raw),
                    (''USDtoZAR_Fill'', take_left idx fill),
                    (''USDtoZAR_MonthlyAver'', take_right idx avg)])"
  using assms
  by (simp add: combined_df_of_def merge_left_def drop_columns_def rename_columns_def
      daily_frame_def getcol_def setcol_def labels_def bind_result_def astype_str_def
      dt_to_period_M_def month_keys_def Let_def o_def)

section \<open>Properties of the left join\<close>

lemma match_positions_mem:
  "j \<in> set (match_positions rkeys k) \<longleftrightarrow> j < length rkeys \<and> rkeys ! j = k"
  by (auto simp: match_positions_def)

lemma match_positions_empty_iff: "match_positions rkeys k = [] \<longleftrightarrow> k \<notin> set rkeys"
  by (auto simp: match_positions_def filter_empty_conv in_set_conv_nth)

lemma match_positions_distinct: "distinct (match_positions rkeys k)"
  by (simp add: match_positions_def)

lemma match_positions_single:
  assumes "distinct rkeys" and "match_positions rkeys k = j # js"
  shows "js = []"
proof (cases js)
  case Nil
  then show ?thesis .
next
  case (Cons j' js')
  have "j \<in> set (match_positions rkeys k)" "j' \<in> set (match_positions rkeys k)"
    using assms(2) Cons by simp_all
  then have "j < length rkeys" "j' < length rkeys" "rkeys ! j = rkeys ! j'"
    by (simp_all add: match_positions_mem)
  then have "j = j'" using assms(1) by (simp add: nth_eq_iff_index_eq)
  moreover have "j \<noteq> j'"
    using match_positions_distinct [of rkeys k] assms(2) Cons by auto
  ultimately show ?thesis by simp
qed

lemma left_join_indexer_distinct:
  assumes "distinct rkeys"
  shows "left_join_indexer lkeys rkeys = map (\<lambda>i. (i, matched rkeys (lkeys ! i))) [0..<length lkeys]"
proof -
  have row: "(case match_positions rkeys k of [] \<Rightarrow> [(i, None)] | js \<Rightarrow> map (\<lambda>j. (i, Some j)) js)
               = [(i, matched rkeys k)]" for i k
  proof (cases "match_positions rkeys k")
    case Nil
    then show ?thesis by (simp add: matched_def)
  next
    case (Cons j js)
    then have "js = []" using assms match_positions_single by blast
    then show ?thesis using Cons by (simp add: matched_def)
  qed
  have "left_join_indexer lkeys rkeys
          = concat (map (\<lambda>i. [(i, matched rkeys (lkeys ! i))]) [0..<length lkeys])"
    unfolding left_join_indexer_def by (simp only: row)
  also have "\<dots> = map (\<lambda>i. (i, matched rkeys (lkeys ! i))) [0..<length lkeys]"
    by (induction "[0..<length lkeys]") simp_all
  finally show ?thesis .
qed

lemma length_left_join_indexer:
  "distinct rkeys \<Longrightarrow> length (left_join_indexer lkeys rkeys) = length lkeys"
  by (simp add: left_join_indexer_distinct)

lemma take_left_distinct:
  assumes "distinct rkeys" and "length col = length lkeys"
  shows "take_left (left_join_indexer lkeys rkeys) col = col"
proof -
  have "take_left (left_join_indexer lkeys rkeys) col = map (\<lambda>i. col ! i) [0..<length col]"
    using assms by (simp add: take_left_def left_join_indexer_distinct o_def)
  then show ?thesis by (simp add: map_nth)
qed

lemma take_right_distinct:
  assumes "distinct rkeys"
  shows "take_right (left_join_indexer lkeys rkeys) col =
           map (\<lambda>k. case matched rkeys k of None \<Rightarrow> NaN | Some j \<Rightarrow> col ! j) lkeys"
proof -
  have "take_right (left_join_indexer lkeys rkeys) col =
          map (\<lambda>i. case matched rkeys (lkeys ! i) of None \<Rightarrow> NaN | Some j \<Rightarrow> col ! j)
              [0..<length lkeys]"
    using assms by (simp add: take_right_def left_join_indexer_distinct o_def)
  also have "\<dots> = map (\<lambda>k. case matched rkeys k of None \<Rightarrow> NaN | Some j \<Rightarrow> col ! j)
                       (map (\<lambda>i. lkeys ! i) [0..<length lkeys])"
    by (simp add: o_def)
  finally show ?thesis by (simp add: map_nth)
qed

lemma matched_None_iff: "matched rkeys k = None \<longleftrightarrow> k \<notin> set rkeys"
  using match_positions_empty_iff [of rkeys k]
  by (cases "match_positions rkeys k") (simp_all add: matched_def)

lemma matched_SomeD:
  assumes "matched rkeys k = Some j"
  shows "j < length rkeys \<and> rkeys ! j = k"
proof -
  from assms obtain js where "match_positions rkeys k = j # js"
    by (cases "match_positions rkeys k") (simp_all add: matched_def)
  then have "j \<in> set (match_positions rkeys k)" by simp
  then show ?thesis by (simp add: match_positions_mem)
qed

section \<open>The merged table of a daily table\<close>

lemma monthly_rows_keys:
  assumes "length fill = length ds"
  shows "set (map fst (monthly_rows ds fill)) = set (map to_period_M ds)"
proof -
  have "map fst (zip (map to_period_M ds) (to_series fill)) = map to_period_M ds"
    using assms by (simp add: to_series_def)
  then show ?thesis
    unfolding monthly_rows_def group_mean_keys by simp
qed

lemma monthly_keys_distinct:
  "distinct (map (\<lambda>g. VStr (period_str (fst g))) (monthly_rows ds fill))"
proof -
  have inj: "distinct (map (\<lambda>p. VStr (period_str p)) ks)" if "distinct ks" for ks
  proof -
    have "inj_on (\<lambda>p. VStr (period_str p)) (set ks)"
      by (rule inj_onI) (simp add: period_str_inj)
    then show ?thesis using that by (simp add: distinct_map)
  qed
  have "distinct (map fst (monthly_rows ds fill))"
    by (simp add: monthly_rows_def group_mean_distinct)
  then have "distinct (map (\<lambda>p. VStr (period_str p)) (map fst (monthly_rows ds fill)))"
    by (rule inj)
  then show ?thesis by (simp only: map_map o_def)
qed

lemma monthly_average_cell:
  assumes "length fill = length ds" and "d \<in> set ds"
  shows "(case matched (map (\<lambda>g. VStr (period_str (fst g))) (monthly_rows ds fill))
                 (VStr (period_str (to_period_M d))) of
            None \<Rightarrow> NaN
          | Some j \<Rightarrow> of_series (map snd (monthly_rows ds fill)) ! j)
         = month_average ds fill d"
proof -
  let ?G = "monthly_rows ds fill"
  let ?rk = "map (\<lambda>g. VStr (period_str (fst g))) ?G"
  let ?k = "VStr (period_str (to_period_M d))"
  have "to_period_M d \<in> set (map fst ?G)"
    unfolding monthly_rows_keys [OF assms(1)] using assms(2) by simp
  then obtain g where g: "g \<in> set ?G" "fst g = to_period_M d" by auto
  have "(\<lambda>g. VStr (period_str (fst g))) g \<in> (\<lambda>g. VStr (period_str (fst g))) ` set ?G"
    using g(1) by (rule imageI)
  then have "?k \<in> set ?rk" using g(2) by simp
  then obtain j where j: "matched ?rk ?k = Some j"
    using matched_None_iff [of ?rk ?k] by (cases "matched ?rk ?k") simp_all
  then have jl: "j < length ?G" and eq: "?rk ! j = ?k"
    using matched_SomeD [OF j] by simp_all
  from eq jl have "period_str (fst (?G ! j)) = period_str (to_period_M d)" by simp
  then have key: "fst (?G ! j) = to_period_M d" by (rule period_str_inj)
  have "?G ! j \<in> set ?G" using jl by simp
  then have "(to_period_M d, snd (?G ! j)) \<in> set ?G" using key by (metis prod.collapse)
  moreover have "distinct (map fst ?G)" by (simp add: monthly_rows_def group_mean_distinct)
  ultimately have m: "map_of ?G (to_period_M d) = Some (snd (?G ! j))"
    by (simp add: map_of_is_SomeI)
  have "of_series (map snd ?G) ! j = (case snd (?G ! j) of Some r \<Rightarrow> VNum r | None \<Rightarrow> NaN)"
    using jl by (simp add: of_series_def)
  then show ?thesis
    using j m by (simp add: month_average_def split: option.splits)
qed

lemma daily_with_monthly_daily:
  assumes "length raw = length ds" and "length fill = length ds"
  shows "daily_with_monthly (daily_frame ds raw fill) =
           Inr [(''InformationDate'', map VDate ds),
                (''USDtoZAR'', raw),
                (''USDtoZAR_Fill'', fill),
                (''USDtoZAR_MonthlyAver'', map (month_average ds fill) ds)]"
proof -
  let ?G = "monthly_rows ds fill"
  let ?rk = "map (\<lambda>g. VStr (period_str (fst g))) ?G"
  let ?idx = "left_join_indexer (month_keys ds) ?rk"
  have d: "distinct ?rk" by (rule monthly_keys_distinct)
  have l: "length (month_keys ds) = length ds" by (simp add: month_keys_def)
  have "take_right ?idx (of_series (map snd ?G)) =
          map (\<lambda>k. case matched ?rk k of None \<Rightarrow> NaN | Some j \<Rightarrow> of_series (map snd ?G) ! j)
              (month_keys ds)"
    using d by (rule take_right_distinct)
  also have "\<dots> = map (month_average ds fill) ds"
    unfolding month_keys_def map_map o_def
    using assms(2) by (intro map_cong refl monthly_average_cell) simp_all
  finally have avg: "take_right ?idx (of_series (map snd ?G)) = map (month_average ds fill) ds" .
  have tl: "take_left ?idx col = col" if "length col = length ds" for col
    using d that l by (simp add: take_left_distinct)
  show ?thesis
    using assms
    by (simp add: daily_with_monthly_def add_YearMonth_daily monthly_avg_df_daily
        combined_df_daily bind_result_def Let_def avg tl)
qed

section \<open>The shape of the daily table\<close>

lemma to_series_of_series [simp]: "to_series (of_series xs) = xs"
  by (induction xs) (auto simp: to_series_def of_series_def split: option.splits)

lemma length_of_series [simp]: "length (of_series xs) = length xs"
  by (simp add: of_series_def)

lemma length_to_series [simp]: "length (to_series col) = length col"
  by (simp add: to_series_def)

lemma set_sort_order: "set (sort_order argsort ks) = {0..<length ks}"
proof (cases "sort (argsort ks) = [0..<length ks]")
  case True
  then have "set (sort (argsort ks)) = set [0..<length ks]" by simp
  then have "set (argsort ks) = {0..<length ks}" by simp
  then show ?thesis using True by (simp add: sort_order_def)
next
  case False
  then show ?thesis by (simp add: sort_order_def)
qed

lemma length_sort_order: "length (sort_order argsort ks) = length ks"
proof (cases "sort (argsort ks) = [0..<length ks]")
  case True
  then have "length (sort (argsort ks)) = length [0..<length ks]" by simp
  then have "length (argsort ks) = length ks" by simp
  then show ?thesis using True by (simp add: sort_order_def)
next
  case False
  then show ?thesis by (simp add: sort_order_def)
qed

lemma sort_values_order_reached:
  assumes "sort order = [0..<length ks]" and "sorted (map (\<lambda>i. ks ! i) order)"
  shows "sort_order (\<lambda>_. order) ks = order"
  using assms by (simp add: sort_order_def sort_key_id_if_sorted)

lemma sort_values_data:
  "\<exists>sdata. sort_values argsort (DataFrame_of_data data) ''InformationDate''
             = Inr (DataFrame_of_data sdata)
           \<and> length sdata = length data"
proof -
  let ?keys = "map (\<lambda>row. VDate (fst row)) data"
  let ?order = "sort_order argsort (map date_key ?keys)"
  have in_range: "i < length data" if "i \<in> set ?order" for i
    using that by (simp add: set_sort_order)
  have c: "map (\<lambda>i. map f data ! i) ?order = map f (map (\<lambda>i. data ! i) ?order)"
    for f :: "date \<times> real \<Rightarrow> val"
    using in_range by (simp add: o_def)
  have "sort_values argsort (DataFrame_of_data data) ''InformationDate''
          = Inr (DataFrame_of_data (map (\<lambda>i. data ! i) ?order))"
    unfolding sort_values_def DataFrame_of_data_def
    by (simp add: getcol_def bind_result_def Let_def c del: length_map map_map)
  moreover have "length (map (\<lambda>i. data ! i) ?order) = length data"
    by (simp add: length_sort_order)
  ultimately show ?thesis by blast
qed

lemma date_min_data:
  assumes "sdata \<noteq> []"
  shows "\<exists>m. date_min (map (\<lambda>row. VDate (fst row)) sdata) = VDate m"
proof -
  have "[d. VDate d \<leftarrow> map (\<lambda>row. VDate (fst row)) sdata] = map fst sdata"
    by (induction sdata) simp_all
  then show ?thesis
    using assms by (cases sdata) (simp_all add: date_min_def)
qed

lemma indexer_fst_bound:
  assumes "(i, j) \<in> set (left_join_indexer lkeys rkeys)"
  shows "i < length lkeys"
proof -
  from assms obtain x where x: "x < length lkeys"
    and mem: "(i, j) \<in> set (case match_positions rkeys (lkeys ! x) of
                                 [] \<Rightarrow> [(x, None)]
                               | js \<Rightarrow> map (\<lambda>j. (x, Some j)) js)"
    by (auto simp: left_join_indexer_def)
  have "i = x"
    using mem by (cases "match_positions rkeys (lkeys ! x)") auto
  then show ?thesis using x by simp
qed

lemma take_left_dates:
  "take_left (left_join_indexer (map VDate xs) rkeys) (map VDate xs)
     = map VDate (map (\<lambda>(i, _). xs ! i) (left_join_indexer (map VDate xs) rkeys))"
proof -
  have "(case e of (i, _) \<Rightarrow> map VDate xs ! i) = VDate (case e of (i, _) \<Rightarrow> xs ! i)"
    if "e \<in> set (left_join_indexer (map VDate xs) rkeys)" for e
  proof -
    obtain i j where e: "e = (i, j)" by (cases e)
    then have "i < length xs" using that indexer_fst_bound [of i j "map VDate xs" rkeys] by simp
    then show ?thesis using e by simp
  qed
  then show ?thesis by (simp add: take_left_def)
qed

lemma df_full_of_shape:
  assumes "data \<noteq> []"
  shows "\<exists>ds raw. df_full_of argsort data today =
                    Inr (daily_frame ds raw (of_series (USDtoZAR_Fill (to_series raw))))
                  \<and> length raw = length ds"
proof -
  obtain sdata where s: "sort_values argsort (DataFrame_of_data data) ''InformationDate''
                           = Inr (DataFrame_of_data sdata)"
    and ls: "length sdata = length data"
    using sort_values_data by blast
  have "sdata \<noteq> []" using ls assms by auto
  then obtain m where m: "date_min (map (\<lambda>row. VDate (fst row)) sdata) = VDate m"
    using date_min_data by blast
  let ?rk = "map (\<lambda>row. VDate (fst row)) sdata"
  let ?idx = "left_join_indexer (map VDate [m..today]) ?rk"
  let ?ds = "map (\<lambda>(i, _). [m..today] ! i) ?idx"
  let ?raw = "take_right ?idx (map (\<lambda>row. VNum (snd row)) sdata)"
  have mg: "merge_left [(''InformationDate'', map VDate [m..today])]
              [(''InformationDate'', map (\<lambda>row. VDate (fst row)) sdata),
               (''USDtoZAR'', map (\<lambda>row. VNum (snd row)) sdata)]
              (On_label ''InformationDate'') ''InformationDate'' (''_x'', ''_y'')
            = Inr [(''InformationDate'', map VDate ?ds), (''USDtoZAR'', ?raw)]"
    by (simp add: merge_left_def DataFrame_of_data_def getcol_def bind_result_def labels_def
        Let_def take_left_dates del: length_map)
  have "df_full_of argsort data today =
          Inr (daily_frame ?ds ?raw (of_series (USDtoZAR_Fill (to_series ?raw))))"
    unfolding df_full_of_def Let_def s
    by (simp add: bind_result_def m date_range_def mg DataFrame_of_data_def getcol_def
        setcol_def labels_def daily_frame_def USDtoZAR_Fill_def rolling_fill_def)
  moreover have "length ?raw = length ?ds" by (simp add: take_right_def)
  ultimately show ?thesis by blast
qed

section \<open>The first fill step\<close>

text \<open>
  C2: on the series 10, 20, missing the trailing window of the third day holds two
  numbers, whose mean is 15, and the claim, like the comment on lines 48 and 49, has the
  first fill step give the day that mean. The step of line 50 leaves the day missing:
  \<^verbatim>\<open>rolling(3)\<close> asks for three observations, the window that ends at a missing day never
  has them, and so the step fills no day of any series.
\<close>

theorem rolling_fill_fills_nothing:
  "spec_window_mean [Some 10, Some 20, None] 2 = Some 15 \<and>
   rolling_mean 3 3 [Some 10, Some 20, None] ! 2 = None \<and>
   rolling_fill [Some 10, Some 20, None] ! 2 = None \<and>
   (\<forall>xs. rolling_fill xs = xs)"
proof (intro conjI allI)
  show "spec_window_mean [Some 10, Some 20, None] 2 = Some 15"
    by (simp add: spec_window_mean_def window_def observed_def mean_def)
  show "rolling_mean 3 3 [Some 10, Some 20, None] ! 2 = None"
    by (simp add: rolling_mean_def window_def observed_def)
  show "rolling_fill [Some 10, Some 20, None] ! 2 = None"
    by (simp add: rolling_fill_id)
  show "rolling_fill xs = xs" for xs
    by (rule rolling_fill_id)
qed

section \<open>The filled series\<close>

text \<open>
  By \<open>df_full_of_shape\<close> the column \<^verbatim>\<open>USDtoZAR_Fill\<close> of the daily table is
  \<open>USDtoZAR_Fill\<close> of its raw column, so the properties below are properties of that
  column.
\<close>

text \<open>
  C3: after the rolling-mean fill and the interpolation the series has its length
  unchanged, and once a position holds a value (in the input or in the result) every
  later position of the result holds one: missing values remain only in a prefix.
\<close>

theorem fill_missing_only_in_prefix:
  "length (USDtoZAR_Fill xs) = length xs \<and>
   (i \<le> j \<and> j < length xs \<and> (xs ! i \<noteq> None \<or> USDtoZAR_Fill xs ! i \<noteq> None)
      \<longrightarrow> USDtoZAR_Fill xs ! j \<noteq> None)"
proof (intro conjI impI)
  show "length (USDtoZAR_Fill xs) = length xs" by (simp add: USDtoZAR_Fill_interpolate)
next
  assume h: "i \<le> j \<and> j < length xs \<and> (xs ! i \<noteq> None \<or> USDtoZAR_Fill xs ! i \<noteq> None)"
  then have i: "i < length xs" by linarith
  from h have "\<exists>k\<le>i. xs ! k \<noteq> None"
    using interpolate_nth_None_iff [OF i] by (auto simp: USDtoZAR_Fill_interpolate)
  then obtain k where k: "k \<le> i" "xs ! k \<noteq> None" by blast
  have "\<not> (\<forall>k\<le>j. xs ! k = None)"
  proof
    assume "\<forall>k\<le>j. xs ! k = None"
    moreover have "k \<le> j" using k h by linarith
    ultimately have "xs ! k = None" by blast
    then show False using k by simp
  qed
  then show "USDtoZAR_Fill xs ! j \<noteq> None"
    using h interpolate_nth_None_iff [of j xs] by (simp add: USDtoZAR_Fill_interpolate)
qed

theorem fill_missing_only_in_prefix_witness:
  "(1::nat) \<le> 4 \<and> 4 < length [None, Some 4, None, Some 6, None :: real option] \<and>
   [None, Some 4, None, Some 6, None :: real option] ! 1 \<noteq> None \<and>
   USDtoZAR_Fill [None, Some 4, None, Some 6, None] ! 4 \<noteq> None"
  using fill_missing_only_in_prefix [of "[None, Some 4, None, Some 6, None]" 1 4] by simp

text \<open>
  C4, as the specification states it, fails at both ends of the series. In 3, 7,
  missing the third day is still missing after the rolling-mean step and has no later
  present value: it is filled with 7, the last present value, by no interpolation
  between two values. In missing, 4 the first day has no earlier present value: it is
  not filled at all.
\<close>

theorem fill_at_the_ends_counterexample:
  "rolling_fill [Some 3, Some 7, None] ! 2 = None \<and>
   next_valid (rolling_fill [Some 3, Some 7, None]) 2 = None \<and>
   USDtoZAR_Fill [Some 3, Some 7, None] ! 2 = Some 7 \<and>
   rolling_fill [None, Some 4] ! 0 = None \<and>
   prev_valid (rolling_fill [None, Some 4]) 0 = None \<and>
   USDtoZAR_Fill [None, Some 4] ! 0 = None"
  by (simp add: USDtoZAR_Fill_def rolling_fill_id interpolate_def interpolate_at_def
      prev_valid_def next_valid_def upt_rec)

text \<open>
  C4, amended: a date that is still missing after the rolling-mean step and lies between
  two dates that hold a value after that step, with only missing dates between them (its
  nearest earlier and its nearest later present value), receives the value of the
  straight line through these two; a date that is still missing and has no later
  present value receives its nearest earlier present value; a date with no present
  value at or before it stays missing. The series 10, missing, missing, missing, 15
  becomes 10, 11.25, 12.5, 13.75, 15.
\<close>

theorem fill_interpolates_linearly:
  "(p < i \<and> i < q \<and> q < length xs \<and>
    rolling_fill xs ! p = Some a \<and> rolling_fill xs ! q = Some b \<and>
    (\<forall>k. p < k \<and> k < q \<longrightarrow> rolling_fill xs ! k = None)
    \<longrightarrow> USDtoZAR_Fill xs ! i = Some (a + (b - a) * (real i - real p) / (real q - real p))) \<and>
   (l < j \<and> j < length xs \<and> rolling_fill xs ! l = Some v \<and>
    (\<forall>k. l < k \<and> k < length xs \<longrightarrow> rolling_fill xs ! k = None)
    \<longrightarrow> USDtoZAR_Fill xs ! j = Some v) \<and>
   (h < length xs \<and> (\<forall>k. k \<le> h \<longrightarrow> rolling_fill xs ! k = None)
    \<longrightarrow> USDtoZAR_Fill xs ! h = None) \<and>
   USDtoZAR_Fill [Some 10, None, None, None, Some 15] =
     [Some 10, Some 11.25, Some 12.5, Some 13.75, Some 15]"
proof (intro conjI impI)
  assume h: "p < i \<and> i < q \<and> q < length xs \<and>
    rolling_fill xs ! p = Some a \<and> rolling_fill xs ! q = Some b \<and>
    (\<forall>k. p < k \<and> k < q \<longrightarrow> rolling_fill xs ! k = None)"
  then have "interpolate xs ! i = Some (interp p a q b i)"
    by (intro interpolate_between) (simp_all add: rolling_fill_id)
  then show "USDtoZAR_Fill xs ! i = Some (a + (b - a) * (real i - real p) / (real q - real p))"
    by (simp add: USDtoZAR_Fill_interpolate interp_def)
next
  assume t: "l < j \<and> j < length xs \<and> rolling_fill xs ! l = Some v \<and>
    (\<forall>k. l < k \<and> k < length xs \<longrightarrow> rolling_fill xs ! k = None)"
  then have "interpolate xs ! j = Some v"
    by (intro interpolate_after_last [of l]) (simp_all add: rolling_fill_id)
  then show "USDtoZAR_Fill xs ! j = Some v"
    by (simp add: USDtoZAR_Fill_interpolate)
next
  assume e: "h < length xs \<and> (\<forall>k. k \<le> h \<longrightarrow> rolling_fill xs ! k = None)"
  then have "\<forall>k\<le>h. xs ! k = None" by (simp add: rolling_fill_id)
  then have "interpolate xs ! h = None"
    using e interpolate_nth_None_iff [of h xs] by simp
  then show "USDtoZAR_Fill xs ! h = None"
    by (simp add: USDtoZAR_Fill_interpolate)
next
  show "USDtoZAR_Fill [Some 10, None, None, None, Some 15] =
     [Some 10, Some 11.25, Some 12.5, Some 13.75, Some 15]"
    by (simp add: USDtoZAR_Fill_def rolling_fill_def interpolate_def interpolate_at_def
        fillna_def rolling_mean_def window_def observed_def mean_def prev_valid_def
        next_valid_def interp_def upt_rec)
qed

theorem fill_interpolates_linearly_witness:
  "rolling_fill [None, Some 2, None, Some 4, None] ! 2 = None \<and>
   USDtoZAR_Fill [None, Some 2, None, Some 4, None] ! 2 = Some 3 \<and>
   USDtoZAR_Fill [None, Some 2, None, Some 4, None] ! 4 = Some 4 \<and>
   USDtoZAR_Fill [None, Some 2, None, Some 4, None] ! 0 = None"
proof -
  let ?xs = "[None, Some 2, None, Some 4, None :: real option]"
  have r: "rolling_fill ?xs = ?xs" by (rule rolling_fill_id)
  have gap: "\<forall>k. 1 < k \<and> k < 3 \<longrightarrow> rolling_fill ?xs ! k = None"
  proof (intro allI impI)
    fix k :: nat assume "1 < k \<and> k < 3"
    then have "k = 2" by linarith
    then show "rolling_fill ?xs ! k = None" by (simp add: r)
  qed
  have tail: "\<forall>k. 3 < k \<and> k < length ?xs \<longrightarrow> rolling_fill ?xs ! k = None"
  proof (intro allI impI)
    fix k :: nat assume "3 < k \<and> k < length ?xs"
    then have "k = 4" by simp
    then show "rolling_fill ?xs ! k = None" by (simp add: r)
  qed
  have head: "\<forall>k. k \<le> 0 \<longrightarrow> rolling_fill ?xs ! k = None"
    by (simp add: r)
  have between: "(1::nat) < 2 \<and> (2::nat) < 3 \<and> 3 < length ?xs \<and>
        rolling_fill ?xs ! 1 = Some 2 \<and> rolling_fill ?xs ! 3 = Some 4 \<and>
        (\<forall>k. 1 < k \<and> k < 3 \<longrightarrow> rolling_fill ?xs ! k = None)"
    using gap by (simp add: r)
  have after: "(3::nat) < 4 \<and> 4 < length ?xs \<and> rolling_fill ?xs ! 3 = Some 4 \<and>
        (\<forall>k. 3 < k \<and> k < length ?xs \<longrightarrow> rolling_fill ?xs ! k = None)"
    using tail by (simp add: r)
  have before: "0 < length ?xs \<and> (\<forall>k. k \<le> 0 \<longrightarrow> rolling_fill ?xs ! k = None)"
    using head by simp
  note T = fill_interpolates_linearly [of 1 2 3 ?xs 2 4 3 4 4 0]
  have "USDtoZAR_Fill ?xs ! 2 = Some (2 + (4 - 2) * (real 2 - real 1) / (real 3 - real 1))"
    by (rule mp [OF conjunct1 [OF T] between])
  then have c1: "USDtoZAR_Fill ?xs ! 2 = Some 3" by simp
  have c2: "USDtoZAR_Fill ?xs ! 4 = Some 4"
    by (rule mp [OF conjunct1 [OF conjunct2 [OF T]] after])
  have c3: "USDtoZAR_Fill ?xs ! 0 = None"
    by (rule mp [OF conjunct1 [OF conjunct2 [OF conjunct2 [OF T]]] before])
  show ?thesis using c1 c2 c3 by (simp add: r)
qed

text \<open>
  C10: when the series has an observed value, every position after the last observed
  one receives exactly that last observed value.
\<close>

theorem fill_extends_last_value:
  assumes "p < j" and "j < length xs" and "xs ! p = Some v"
    and "\<forall>k. p < k \<and> k < length xs \<longrightarrow> xs ! k = None"
  shows "USDtoZAR_Fill xs ! j = Some v"
  using assms by (simp add: USDtoZAR_Fill_interpolate interpolate_after_last)

theorem fill_extends_last_value_witness:
  "USDtoZAR_Fill [Some 3, Some 7, None, None] ! 3 = Some 7"
proof -
  have "\<forall>k. 1 < k \<and> k < length [Some 3, Some 7, None, None :: real option]
          \<longrightarrow> [Some 3, Some 7, None, None :: real option] ! k = None"
    by (auto simp: less_Suc_eq numeral_3_eq_3 numeral_2_eq_2)
  then show ?thesis
    using fill_extends_last_value [of 1 3 "[Some 3, Some 7, None, None]" 7] by simp
qed

section \<open>The derived daily rate\<close>

text \<open>
  C1: when no date that has both rates has a zero USD rate (the division raises
  otherwise), the extraction returns, in document order, one entry for every date on
  which both the USD and the ZAR rate are present, its value being the ZAR rate divided
  by the USD rate; a date lacking either rate has no entry.
\<close>

theorem derived_rate_is_quotient:
  assumes "\<forall>c \<in> set cubes. both_present c \<longrightarrow> usd_rate c \<noteq> 0"
  shows "extract_rates cubes [] = Inr (map cross_rate (filter both_present cubes))"
  using assms by (auto simp: extract_rates_acc)

theorem derived_rate_is_quotient_witness:
  "extract_rates [(1, [(''USD'', 11 / 10), (''ZAR'', 39 / 2)]), (2, [(''USD'', 11 / 10)])] []
     = Inr [(1, 195 / 11)]"
  using derived_rate_is_quotient
    [of "[(1, [(''USD'', 11 / 10), (''ZAR'', 39 / 2)]), (2, [(''USD'', 11 / 10)])]"]
  by (simp add: feed_facts cross_rate_def)

text \<open>
  C7, as the specification states it, fails: on a date whose USD rate is zero the
  extraction does not skip the date, it ends with \<^verbatim>\<open>ZeroDivisionError\<close>.
\<close>

theorem zero_rate_raises_counterexample:
  "extract_rates [(1, [(''USD'', 0), (''ZAR'', 39 / 2)])] [] = Inl ZeroDivisionError \<and>
   extract_rates [(1, [(''USD'', 0), (''ZAR'', 39 / 2)])] [] \<noteq> Inr []"
  by (simp add: rates_of_def truediv_def Let_def del: not_None_eq)

text \<open>
  C7, amended: the division is performed on every date on which both rates are present,
  and on no other; a date lacking either rate yields no entry; the rate in the
  denominator is not tested, so a date that has both rates and a zero USD rate ends the
  extraction with a division-by-zero error.
\<close>

theorem division_guarded_by_presence_only:
  "extract_rates cubes [] =
     (if \<exists>c \<in> set cubes. both_present c \<and> usd_rate c = 0 then Inl ZeroDivisionError
      else Inr (map cross_rate (filter both_present cubes)))"
  by (simp add: extract_rates_acc)

theorem division_guarded_by_presence_only_witness:
  "extract_rates [(1, [(''ZAR'', 39 / 2)]), (2, [(''USD'', 0), (''ZAR'', 20)])] []
     = Inl ZeroDivisionError"
proof -
  have "both_present (2, [(''USD'', 0), (''ZAR'', 20)]) \<and>
        usd_rate (2, [(''USD'', 0), (''ZAR'', 20)]) = 0"
    by (simp add: both_present_def usd_rate_def rates_of_def)
  then show ?thesis
    using division_guarded_by_presence_only
      [of "[(1, [(''ZAR'', 39 / 2)]), (2, [(''USD'', 0), (''ZAR'', 20)])]"]
    by simp
qed

section \<open>The monthly averages\<close>

text \<open>
  C5, as the specification states it, fails: for a daily table whose January 2024 days
  are all missing and whose first February day holds 3, the monthly table has a row for
  2024-01, with a missing average.
\<close>

theorem all_missing_month_is_emitted_counterexample:
  "bind_result
     (add_YearMonth [(''InformationDate'', [VDate 19752, VDate 19753, VDate 19754]),
                     (''USDtoZAR'', [NaN, NaN, VNum 3]),
                     (''USDtoZAR_Fill'', [NaN, NaN, VNum 3])])
     monthly_avg_df_of
   = Inr [(''YearMonth'', [VStr ''2024-01'', VStr ''2024-02'']),
          (''USDtoZAR_Fill'', [NaN, VNum 3])]"
  by code_simp

text \<open>
  C5, amended: the monthly aggregator emits exactly one row for every month present in
  the daily series; the average of a month is the arithmetic mean of the values present
  in that month, and it is missing when the month has no value present.
\<close>

theorem monthly_average_per_month:
  "distinct (map fst (group_mean rows)) \<and>
   set (map fst (group_mean rows)) = fst ` set rows \<and>
   ((k, a) \<in> set (group_mean rows) \<longrightarrow>
      a = (if month_values rows k = [] then None
           else Some (sum_list (month_values rows k) / real (length (month_values rows k)))))"
proof (intro conjI impI)
  show "distinct (map fst (group_mean rows))" by (rule group_mean_distinct)
  show "set (map fst (group_mean rows)) = fst ` set rows" by (rule group_mean_key_set)
next
  assume "(k, a) \<in> set (group_mean rows)"
  then have "a = nanmean (map snd (filter (\<lambda>row. fst row = k) rows))"
    by (rule group_mean_value)
  then show "a = (if month_values rows k = [] then None
           else Some (sum_list (month_values rows k) / real (length (month_values rows k))))"
    by (simp add: nanmean_eq observed_month)
qed

theorem monthly_average_per_month_witness:
  "(649, Some 3) \<in> set (group_mean [(648, None), (649, Some 2), (648, None), (649, Some 4), (649, None)]) \<and>
   Some (3::real) =
     (if month_values [(648, None), (649, Some 2), (648, None), (649, Some 4), (649, None)] 649 = []
      then None
      else Some (sum_list (month_values [(648, None), (649, Some 2), (648, None), (649, Some 4), (649, None)] 649)
                 / real (length (month_values [(648, None), (649, Some 2), (648, None), (649, Some 4), (649, None)] 649))))"
  using monthly_average_per_month
    [of "[(648, None), (649, Some 2), (648, None), (649, Some 4), (649, None)]" 649 "Some 3"]
  by (simp add: group_mean_example)

section \<open>The merge of the daily table with the monthly averages\<close>

text \<open>
  C8: for a daily table whose columns have one length, lines 58 to 73 return a table
  with the same date, raw and filled columns, each daily row once and in its place, so
  with exactly as many rows, and with the average of its month beside every row. The
  monthly table has one row per month, and for right keys without duplicates the left
  join yields one row per left row, in order; a left row whose key has no match among
  the right keys receives a missing value in the columns of the right table.
\<close>

theorem merge_keeps_every_daily_row:
  "(length raw = length ds \<and> length fill = length ds \<longrightarrow>
      daily_with_monthly (daily_frame ds raw fill) =
        Inr [(''InformationDate'', map VDate ds),
             (''USDtoZAR'', raw),
             (''USDtoZAR_Fill'', fill),
             (''USDtoZAR_MonthlyAver'', map (month_average ds fill) ds)]) \<and>
   (distinct rkeys \<longrightarrow>
      map fst (left_join_indexer lkeys rkeys) = [0..<length lkeys] \<and>
      (i < length lkeys \<and> lkeys ! i \<notin> set rkeys \<longrightarrow>
         take_right (left_join_indexer lkeys rkeys) col ! i = NaN))"
proof (intro conjI impI)
  assume "length raw = length ds \<and> length fill = length ds"
  then show "daily_with_monthly (daily_frame ds raw fill) =
        Inr [(''InformationDate'', map VDate ds),
             (''USDtoZAR'', raw),
             (''USDtoZAR_Fill'', fill),
             (''USDtoZAR_MonthlyAver'', map (month_average ds fill) ds)]"
    by (simp add: daily_with_monthly_daily)
next
  assume "distinct rkeys"
  then show "map fst (left_join_indexer lkeys rkeys) = [0..<length lkeys]"
    by (simp add: left_join_indexer_distinct o_def)
next
  assume d: "distinct rkeys" and h: "i < length lkeys \<and> lkeys ! i \<notin> set rkeys"
  then have "matched rkeys (lkeys ! i) = None" by (simp add: matched_None_iff)
  then show "take_right (left_join_indexer lkeys rkeys) col ! i = NaN"
    using d h by (simp add: take_right_distinct)
qed

theorem merge_keeps_every_daily_row_witness:
  "daily_with_monthly (daily_frame [19753, 19754] [VNum 2, NaN] [VNum 2, VNum 4]) =
     Inr [(''InformationDate'', [VDate 19753, VDate 19754]),
          (''USDtoZAR'', [VNum 2, NaN]),
          (''USDtoZAR_Fill'', [VNum 2, VNum 4]),
          (''USDtoZAR_MonthlyAver'',
             map (month_average [19753, 19754] [VNum 2, VNum 4]) [19753, 19754])] \<and>
   take_right (left_join_indexer [VStr ''2024-01'', VStr ''2024-02''] [VStr ''2024-01''])
     [VNum 2] ! 1 = NaN"
  using merge_keeps_every_daily_row
    [of "[VNum 2, NaN]" "[19753, 19754]" "[VNum 2, VNum 4]" "[VStr ''2024-01'']"
        "[VStr ''2024-01'', VStr ''2024-02'']" 1 "[VNum 2]"]
  by simp

text \<open>
  C9: whenever the extraction yields at least one derived rate, the run produces the
  merged table, and its columns are exactly the date, the raw derived rate, the filled
  rate and the monthly average, each once; the join key and the two suffixed
  \<^verbatim>\<open>YearMonth\<close> columns are gone.
\<close>

theorem combined_has_four_columns:
  "extract_rates cubes [] = Inr data \<and> data \<noteq> [] \<longrightarrow>
     (\<exists>combined_df. process argsort cubes today = Inr combined_df \<and>
        labels combined_df =
          [''InformationDate'', ''USDtoZAR'', ''USDtoZAR_Fill'', ''USDtoZAR_MonthlyAver''] \<and>
        distinct (labels combined_df))"
proof
  assume h: "extract_rates cubes [] = Inr data \<and> data \<noteq> []"
  then obtain ds raw where
    df: "df_full_of argsort data today = Inr (daily_frame ds raw (of_series (USDtoZAR_Fill (to_series raw))))"
    and l: "length raw = length ds"
    using df_full_of_shape [of data argsort today] by blast
  have lf: "length (of_series (USDtoZAR_Fill (to_series raw))) = length ds"
    using l by (simp add: USDtoZAR_Fill_interpolate)
  have "process argsort cubes today =
          Inr [(''InformationDate'', map VDate ds),
               (''USDtoZAR'', raw),
               (''USDtoZAR_Fill'', of_series (USDtoZAR_Fill (to_series raw))),
               (''USDtoZAR_MonthlyAver'',
                  map (month_average ds (of_series (USDtoZAR_Fill (to_series raw)))) ds)]"
    using h df daily_with_monthly_daily [OF l lf]
    by (simp add: process_def bind_result_def)
  then show "\<exists>combined_df. process argsort cubes today = Inr combined_df \<and>
        labels combined_df =
          [''InformationDate'', ''USDtoZAR'', ''USDtoZAR_Fill'', ''USDtoZAR_MonthlyAver''] \<and>
        distinct (labels combined_df)"
    by (simp add: labels_def)
qed

theorem combined_has_four_columns_witness:
  "\<exists>combined_df. process (\<lambda>ks. [0..<length ks]) [(19753, [(''USD'', 2), (''ZAR'', 37)])] 19755
                   = Inr combined_df \<and>
      labels combined_df =
        [''InformationDate'', ''USDtoZAR'', ''USDtoZAR_Fill'', ''USDtoZAR_MonthlyAver''] \<and>
      distinct (labels combined_df)"
proof -
  have "extract_rates [(19753, [(''USD'', 2), (''ZAR'', 37)])] [] = Inr [(19753, 37 / 2)] \<and>
        [(19753 :: int, 37 / 2 :: real)] \<noteq> []"
    by (simp add: rates_of_def truediv_def Let_def del: not_None_eq)
  then show ?thesis
    using combined_has_four_columns
      [of "[(19753, [(''USD'', 2), (''ZAR'', 37)])]" "[(19753, 37 / 2)]"
          "\<lambda>ks. [0..<length ks]" 19755]
    by blast
qed

section \<open>A failed fetch\<close>

text \<open>
  C6: on the status code 404 the script prints the diagnostic and then goes on into the
  plotting section, where it creates a figure and stops with \<^verbatim>\<open>NameError\<close> on the unbound
  \<^verbatim>\<open>combined_df\<close>; no file is written and \<^verbatim>\<open>plt.show\<close> is not reached.
\<close>

theorem failed_fetch_runs_into_plotting:
  "main argsort \<lparr>status_code = 404, content = []\<rparr> 0 =
     ([Print_text ''Failed to fetch historical exchange rate data from ECB.'', Figure],
      Some (NameError ''combined_df''))"
  by (simp add: main_def plot_section_def)

end
